theory Spec2Isabelle
  imports Complex_Main
begin

section \<open>Numbers and capacity parsing\<close>

text \<open>
  The constructor and the \<open>limit\<close> setter first hand their argument to the built-in
  \<open>parseFloat\<close> / \<open>parseInt\<close>.  The model starts from the Number these built-ins
  return: \<open>NaN\<close> (nothing numeric could be read), an infinity, or a finite number
  (every finite double is a real number; \<open>parseInt\<close> yields integers only).
\<close>

datatype 'a jsnum = NaN | PosInf | NegInf | Fin 'a

definition isFinite :: "'a jsnum \<Rightarrow> bool" where
  "isFinite v = (case v of Fin _ \<Rightarrow> True | _ \<Rightarrow> False)"

definition isNaN :: "'a jsnum \<Rightarrow> bool" where
  "isNaN v = (case v of NaN \<Rightarrow> True | _ \<Rightarrow> False)"

text \<open>\<open>Number.MAX_VALUE\<close>, the largest finite double, is an integer.\<close>

definition MAX_VALUE :: int where
  "MAX_VALUE = (2 ^ 53 - 1) * 2 ^ 971"

text \<open>\<open>parseFloat(value.toFixed(0))\<close>: the nearest integer, a tie going away from zero.\<close>

definition toFixed0 :: "real \<Rightarrow> int" where
  "toFixed0 q = (if q < 0 then - \<lfloor>- q + 1 / 2\<rfloor> else \<lfloor>q + 1 / 2\<rfloor>)"

text \<open>
  \<open>_toNumber(value, onFailedConversion, minValue, maxValue)\<close>, called with all four
  arguments (the only call in the file), on the result of \<open>parseFloat(value)\<close>.
\<close>

definition toNumber :: "real jsnum \<Rightarrow> int \<Rightarrow> int \<Rightarrow> int \<Rightarrow> int" where
  "toNumber parsed onFailedConversion minValue maxValue =
     (if \<not> isFinite parsed \<or> isNaN parsed then onFailedConversion
      else case parsed of
        Fin q \<Rightarrow>
          (let v = toFixed0 q
           in if v > maxValue then maxValue
              else if v < minValue then minValue
              else v)
      | _ \<Rightarrow> onFailedConversion)"

definition minCacheSize :: int where
  "minCacheSize = 2"

section \<open>Entries and the cache\<close>

text \<open>
  The index \<open>_keys\<close> is a plain object \<open>{}\<close> that is read with \<open>_keys[key]\<close>, so a key is a
  property name, and a name that \<open>_keys\<close> does not own is looked up in \<open>Object.prototype\<close>.
  The function-valued properties of \<open>Object.prototype\<close> are:
\<close>

datatype builtin =
  Constructor | DefineGetter | DefineSetter | HasOwnProperty | LookupGetter | LookupSetter
  | IsPrototypeOf | PropertyIsEnumerable | ToLocaleString | ToString | ValueOf

text \<open>
  Property names: \<open>Inherited b\<close> is the name of the built-in \<open>b\<close> (\<open>constructor\<close>,
  \<open>toString\<close>, ...), \<open>UndefinedName\<close> is the name \<open>undefined\<close>, which is what
  \<open>_keys[entry.key]\<close> addresses when \<open>entry.key\<close> is \<open>undefined\<close>, and \<open>Key k\<close> stands for a
  name that is none of these (\<open>Key ''a''\<close> for the name \<open>a\<close>).  One name of JavaScript is not
  a name of the model, the accessor \<open>__proto__\<close>: assigning \<open>_keys['__proto__']\<close> binds no key
  but replaces the prototype of the index by the entry, after which \<open>_keys[key]\<close> can yield
  a string or a stored value where the code expects an entry.  Every statement below is
  about caches that were never handed that name.
\<close>

datatype 'k name = Key 'k | Inherited builtin | UndefinedName

text \<open>
  Entries are JavaScript objects that are shared between the index \<open>_keys\<close>, the
  \<open>head\<close>/\<open>tail\<close> references and the \<open>newer\<close>/\<open>older\<close> links of their neighbours, and they
  are mutated in place.  The store is therefore explicit.  An object of the store is an
  entry, \<open>Ent n\<close> for the \<open>n\<close>-th object literal \<open>{key: key, value: value}\<close> that \<open>put\<close> evaluated,
  or the function object \<open>Func b\<close> of a built-in: the code takes whatever \<open>_keys[key]\<close> yields
  for an entry and reads and writes its properties.  Each of the properties \<open>key\<close>, \<open>value\<close>,
  \<open>newer\<close>, \<open>older\<close> is a map from objects; a property that an object does not have reads as
  \<open>undefined\<close>, here \<open>None\<close> (no prototype of these objects has one of the four).  \<open>nextaddr\<close>
  numbers the next object literal.

  \<open>keys\<close> holds the own properties of \<open>_keys\<close>.  \<open>_currentSize\<close> and \<open>_cacheSize\<close> are integers
  (doubles count exactly far beyond any number of entries a cache can hold).
\<close>

datatype ref = Ent nat | Func builtin

record ('k, 'v) cache =
  ekey :: "ref \<rightharpoonup> 'k name"
  evalue :: "ref \<rightharpoonup> 'v"
  newer :: "ref \<rightharpoonup> ref"
  older :: "ref \<rightharpoonup> ref"
  nextaddr :: nat
  head :: "ref option"
  tail :: "ref option"
  cacheSize :: int
  currentSize :: int
  keys :: "'k name \<rightharpoonup> ref"

text \<open>
  JavaScript values that a caller can be handed: \<open>undefined\<close>, \<open>null\<close>, a boolean, a stored
  value, or an object of the store.
\<close>

datatype 'v jsval = Undefined | Null | Bool bool | Value 'v | Obj ref

text \<open>
  The exception of the model: evaluating an unbound identifier.  With the names of the model,
  every property access of the code is on an object of the store (an entry or a function,
  both of which take new properties) or behind a test that the reference is defined.
\<close>

datatype error = ReferenceError

text \<open>\<open>_keys[key]\<close>: the own property, else the inherited one.\<close>

definition lookup :: "('k, 'v) cache \<Rightarrow> 'k name \<Rightarrow> ref option" where
  "lookup s key =
     (case keys s key of
        Some e \<Rightarrow> Some e
      | None \<Rightarrow> (case key of Inherited b \<Rightarrow> Some (Func b) | _ \<Rightarrow> None))"

definition value_of :: "('k, 'v) cache \<Rightarrow> ref \<Rightarrow> 'v jsval" where
  "value_of s e = (case evalue s e of None \<Rightarrow> Undefined | Some v \<Rightarrow> Value v)"

definition set_newer :: "ref \<Rightarrow> ref option \<Rightarrow> ('k, 'v) cache \<Rightarrow> ('k, 'v) cache" where
  "set_newer e x s = s\<lparr>newer := (newer s)(e := x)\<rparr>"

definition set_older :: "ref \<Rightarrow> ref option \<Rightarrow> ('k, 'v) cache \<Rightarrow> ('k, 'v) cache" where
  "set_older e x s = s\<lparr>older := (older s)(e := x)\<rparr>"

text \<open>The property name that \<open>entry.key\<close> stands for in \<open>_keys[entry.key]\<close>.\<close>

definition key_name :: "('k, 'v) cache \<Rightarrow> ref \<Rightarrow> 'k name" where
  "key_name s e = (case ekey s e of None \<Rightarrow> UndefinedName | Some k \<Rightarrow> k)"

text \<open>\<open>delete _keys[entry.key]\<close>: the own property of that name goes, if there is one.\<close>

definition delete_key_of :: "ref \<Rightarrow> ('k, 'v) cache \<Rightarrow> ('k, 'v) cache" where
  "delete_key_of e s = s\<lparr>keys := (keys s)(key_name s e := None)\<rparr>"

text \<open>\<open>new CacheLRU(size)\<close>, on the result of \<open>parseFloat(size)\<close>.\<close>

definition new_cache :: "real jsnum \<Rightarrow> ('k, 'v) cache" where
  "new_cache parsed =
     \<lparr>ekey = Map.empty, evalue = Map.empty, newer = Map.empty, older = Map.empty,
      nextaddr = 0, head = None, tail = None,
      cacheSize = toNumber parsed minCacheSize minCacheSize MAX_VALUE,
      currentSize = 0, keys = Map.empty\<rparr>"

definition destroy :: "('k, 'v) cache \<Rightarrow> 'v jsval \<times> ('k, 'v) cache" where
  "destroy s = (Undefined, s\<lparr>head := None, tail := None, currentSize := 0, keys := Map.empty\<rparr>)"

definition get :: "'k name \<Rightarrow> bool \<Rightarrow> ('k, 'v) cache \<Rightarrow> 'v jsval \<times> ('k, 'v) cache" where
  "get key returnEntry s =
     (case lookup s key of
        None \<Rightarrow> (Undefined, s)
      | Some entry \<Rightarrow>
          if Some entry = tail s
          then (if returnEntry then Obj entry else value_of s entry, s)
          else
            let s1 = (case newer s entry of
                        Some n \<Rightarrow>
                          (let s' = (if Some entry = head s then s\<lparr>head := newer s entry\<rparr> else s)
                           in set_older n (older s' entry) s')
                      | None \<Rightarrow> s);
                s2 = (case older s1 entry of
                        Some p \<Rightarrow> set_newer p (newer s1 entry) s1
                      | None \<Rightarrow> s1);
                s3 = set_newer entry None s2;
                s4 = set_older entry (tail s3) s3;
                s5 = (case tail s4 of
                        Some t \<Rightarrow> set_newer t (Some entry) s4
                      | None \<Rightarrow> s4);
                s6 = s5\<lparr>tail := Some entry\<rparr>
            in (if returnEntry then Obj entry else value_of s6 entry, s6))"

definition isSet :: "'k name \<Rightarrow> ('k, 'v) cache \<Rightarrow> 'v jsval \<times> ('k, 'v) cache" where
  "isSet key s = (case lookup s key of None \<Rightarrow> (Undefined, s) | Some entry \<Rightarrow> (Obj entry, s))"

text \<open>
  The loops of \<open>iterate\<close>: \<open>while (entry) { ...; entry = entry.newer; }\<close> (or \<open>older\<close>).
  Nothing in the loop bounds it, so the walk is a partial function: \<open>None\<close> is a walk
  that never ends.
\<close>

partial_function (option) walk :: "(ref \<rightharpoonup> ref) \<Rightarrow> ref option \<Rightarrow> ref list option" where
  "walk nxt entry =
     (case entry of
        None \<Rightarrow> Some []
      | Some e \<Rightarrow> Option.bind (walk nxt (nxt e)) (\<lambda>es. Some (e # es)))"

declare walk.simps [code]

text \<open>
  \<open>iterate(iteratee, context, descending)\<close>: the sequence of \<open>(entry.key, entry.value)\<close>
  pairs that the iteratee is called with.
\<close>

definition visited :: "bool \<Rightarrow> ('k, 'v) cache \<Rightarrow> ref list option" where
  "visited descending s =
     (if descending then walk (older s) (tail s) else walk (newer s) (head s))"

definition iterate :: "bool \<Rightarrow> ('k, 'v) cache \<Rightarrow> ('k name option \<times> 'v option) list option" where
  "iterate descending s =
     map_option (map (\<lambda>e. (ekey s e, evalue s e))) (visited descending s)"

definition limit_get :: "('k, 'v) cache \<Rightarrow> int" where
  "limit_get s = cacheSize s"

definition shift :: "('k, 'v) cache \<Rightarrow> 'v jsval \<times> ('k, 'v) cache" where
  "shift s =
     (case head s of
        None \<Rightarrow> (Undefined, s)
      | Some entry \<Rightarrow>
          let s1 = (case newer s entry of
                      Some n \<Rightarrow> set_older n None (s\<lparr>head := Some n\<rparr>)
                    | None \<Rightarrow> s\<lparr>head := None\<rparr>);
              s2 = set_newer entry None (set_older entry None s1);
              s3 = delete_key_of entry s2
          in (Obj entry, s3))"

definition put :: "'k name \<Rightarrow> 'v \<Rightarrow> ('k, 'v) cache \<Rightarrow> 'v jsval \<times> ('k, 'v) cache" where
  "put key value s =
     (let entry = Ent (nextaddr s);
          s1 = s\<lparr>ekey := (ekey s)(entry \<mapsto> key), evalue := (evalue s)(entry \<mapsto> value),
                newer := (newer s)(entry := None), older := (older s)(entry := None),
                nextaddr := Suc (nextaddr s)\<rparr>;
          s2 = s1\<lparr>keys := (keys s1)(key \<mapsto> entry)\<rparr>;
          s3 = (case tail s2 of
                  Some t \<Rightarrow> set_older entry (Some t) (set_newer t (Some entry) s2)
                | None \<Rightarrow> s2\<lparr>head := Some entry\<rparr>);
          s4 = s3\<lparr>tail := Some entry\<rparr>
      in if currentSize s4 = cacheSize s4 then shift s4
         else (Null, s4\<lparr>currentSize := currentSize s4 + 1\<rparr>))"

definition remove :: "'k name \<Rightarrow> ('k, 'v) cache \<Rightarrow> 'v jsval \<times> ('k, 'v) cache" where
  "remove key s =
     (case lookup s key of
        None \<Rightarrow> (Undefined, s)
      | Some entry \<Rightarrow>
          let s1 = delete_key_of entry s;
              s2 = (case (newer s1 entry, older s1 entry) of
                      (Some _, Some p) \<Rightarrow>
                        (let t = set_newer p (newer s1 entry) s1
                         in case newer t entry of
                              Some n \<Rightarrow> set_older n (older t entry) t
                            | None \<Rightarrow> t)
                    | (Some n, None) \<Rightarrow> (set_older n None s1)\<lparr>head := newer s1 entry\<rparr>
                    | (None, Some p) \<Rightarrow> (set_newer p None s1)\<lparr>tail := older s1 entry\<rparr>
                    | (None, None) \<Rightarrow> s1\<lparr>head := None, tail := None\<rparr>);
              s3 = s2\<lparr>currentSize := currentSize s2 - 1\<rparr>
          in (value_of s3 entry, s3))"

definition set_op :: "'k name \<Rightarrow> 'v \<Rightarrow> ('k, 'v) cache \<Rightarrow> 'v jsval \<times> ('k, 'v) cache" where
  "set_op key value s =
     (case get key True s of
        (Obj entry, s1) \<Rightarrow> (value_of s1 entry, s1\<lparr>evalue := (evalue s1)(entry \<mapsto> value)\<rparr>)
      | (_, s1) \<Rightarrow>
          (case put key value s1 of
             (Obj old, s2) \<Rightarrow> (value_of s2 old, s2)
           | (oldvalue, s2) \<Rightarrow> (oldvalue, s2)))"

text \<open>
  Modelled from the spec: the identifier \<open>_\<close> that the \<open>limit\<close> setter uses is not defined in
  the source file; it is the global of the Underscore/lodash library, of which the setter
  calls \<open>times\<close> ("evicts from the head repeatedly").  \<open>_.times(n, f)\<close> calls \<open>f\<close> \<open>n\<close> times,
  and not at all when \<open>n < 1\<close>.
\<close>

definition underscore_times :: "int \<Rightarrow> ('s \<Rightarrow> 's) \<Rightarrow> 's \<Rightarrow> 's" where
  "underscore_times n f s = (if n < 1 then s else (f ^^ nat n) s)"

text \<open>
  The \<open>limit\<close> setter, on the result of \<open>parseInt(value)\<close>.  Its first argument is what the
  global \<open>_\<close> provides as \<open>times\<close>, if it is bound at all (\<open>None\<close>: the file is loaded on its
  own, as it is shipped).  The file runs in strict mode, so evaluating an unbound \<open>_\<close> raises
  a \<open>ReferenceError\<close>; by then \<open>_cacheSize\<close> has been assigned, and the exception leaves the
  cache in that state.
\<close>

definition limit_set ::
  "(int \<Rightarrow> (('k, 'v) cache \<Rightarrow> ('k, 'v) cache) \<Rightarrow> ('k, 'v) cache \<Rightarrow> ('k, 'v) cache) option
     \<Rightarrow> int jsnum \<Rightarrow> ('k, 'v) cache
     \<Rightarrow> (error \<times> ('k, 'v) cache) + ('v jsval \<times> ('k, 'v) cache)" where
  "limit_set underscore parsed s =
     (let v = (case parsed of
                 Fin i \<Rightarrow> if i < minCacheSize then minCacheSize else i
               | _ \<Rightarrow> minCacheSize);
          s1 = s\<lparr>cacheSize := v\<rparr>
      in if currentSize s1 - v \<noteq> 0
         then (case underscore of
                 None \<Rightarrow> Inl (ReferenceError, s1)
               | Some times_fn \<Rightarrow> Inr (Undefined, times_fn (currentSize s1 - v) (\<lambda>t. snd (shift t)) s1))
         else Inr (Undefined, s1))"

section \<open>Sequences of calls\<close>

text \<open>
  The public operations other than the two that only read, \<open>iterate\<close> and \<open>keys\<close>, and a call
  of each: the result is the exception raised, or the value returned, with the state the
  call leaves.
\<close>

datatype ('k, 'v) op =
  Get "'k name" bool | IsSet "'k name" | LimitSet "int jsnum" | Put "'k name" 'v
  | Remove "'k name" | Set "'k name" 'v | Shift | Destroy

fun exec ::
  "(int \<Rightarrow> (('k, 'v) cache \<Rightarrow> ('k, 'v) cache) \<Rightarrow> ('k, 'v) cache \<Rightarrow> ('k, 'v) cache) option
     \<Rightarrow> ('k, 'v) op \<Rightarrow> ('k, 'v) cache
     \<Rightarrow> (error \<times> ('k, 'v) cache) + ('v jsval \<times> ('k, 'v) cache)" where
  "exec u (Get k r) s = Inr (get k r s)"
| "exec u (IsSet k) s = Inr (isSet k s)"
| "exec u (LimitSet v) s = limit_set u v s"
| "exec u (Put k v) s = Inr (put k v s)"
| "exec u (Remove k) s = Inr (remove k s)"
| "exec u (Set k v) s = Inr (set_op k v s)"
| "exec u Shift s = Inr (shift s)"
| "exec u Destroy s = Inr (destroy s)"

text \<open>A sequence of calls stops at the first exception.\<close>

fun run ::
  "(int \<Rightarrow> (('k, 'v) cache \<Rightarrow> ('k, 'v) cache) \<Rightarrow> ('k, 'v) cache \<Rightarrow> ('k, 'v) cache) option
     \<Rightarrow> ('k, 'v) op list \<Rightarrow> ('k, 'v) cache
     \<Rightarrow> (error \<times> ('k, 'v) cache) + ('k, 'v) cache" where
  "run u [] s = Inr s"
| "run u (c # cs) s = (case exec u c s of Inl e \<Rightarrow> Inl e | Inr (r, s') \<Rightarrow> run u cs s')"

text \<open>Consecutive \<open>put\<close> calls, with the result of each.\<close>

fun puts :: "('k name \<times> 'v) list \<Rightarrow> ('k, 'v) cache \<Rightarrow> 'v jsval list \<times> ('k, 'v) cache" where
  "puts [] s = ([], s)"
| "puts ((k, v) # kvs) s =
     (let (r, s1) = put k v s; (rs, s2) = puts kvs s1 in (r # rs, s2))"

section \<open>Well-formed caches\<close>

text \<open>
  \<open>seg nxt x es z\<close>: following \<open>nxt\<close> from the reference \<open>x\<close> visits exactly the entries \<open>es\<close>
  and then arrives at \<open>z\<close>.
\<close>

fun seg :: "(ref \<rightharpoonup> ref) \<Rightarrow> ref option \<Rightarrow> ref list \<Rightarrow> ref option \<Rightarrow> bool" where
  "seg nxt x [] z = (x = z)"
| "seg nxt x (e # es) z = (x = Some e \<and> seg nxt (nxt e) es z)"

text \<open>
  The entries \<open>es\<close>, oldest first, are the doubly linked order list: \<open>newer\<close> leads from
  \<open>head\<close> through \<open>es\<close>, \<open>older\<close> leads from \<open>tail\<close> back through \<open>es\<close>.
\<close>

definition linked :: "('k, 'v) cache \<Rightarrow> ref list \<Rightarrow> bool" where
  "linked s es \<longleftrightarrow>
     distinct es \<and> seg (newer s) (head s) es None \<and> seg (older s) (tail s) (rev es) None"

text \<open>The index binds exactly the keys of the entries \<open>es\<close>, each to its own entry.\<close>

definition indexed :: "('k, 'v) cache \<Rightarrow> ref list \<Rightarrow> bool" where
  "indexed s es \<longleftrightarrow>
     (\<forall>k e. keys s k = Some e \<longrightarrow> e \<in> set es \<and> ekey s e = Some k) \<and>
     (\<forall>e \<in> set es. \<exists>k. ekey s e = Some k \<and> keys s k = Some e)"

text \<open>An entry that \<open>put\<close> has created among the first \<open>n\<close> object literals.\<close>

fun allocated :: "nat \<Rightarrow> ref \<Rightarrow> bool" where
  "allocated n (Ent i) = (i < n)"
| "allocated n (Func b) = False"

text \<open>
  The invariants of the data model: the order list consists of entries, the order list and
  the index agree, the count is the number of entries and does not exceed the capacity,
  which is at least the floor.
\<close>

definition well_formed :: "('k, 'v) cache \<Rightarrow> ref list \<Rightarrow> bool" where
  "well_formed s es \<longleftrightarrow>
     linked s es \<and> indexed s es \<and>
     (\<forall>e \<in> set es. allocated (nextaddr s) e \<and> evalue s e \<noteq> None) \<and>
     currentSize s = int (length es) \<and> currentSize s \<le> cacheSize s \<and>
     minCacheSize \<le> cacheSize s"

definition pairs :: "('k name \<times> 'v) list \<Rightarrow> ('k name option \<times> 'v option) list" where
  "pairs kvs = map (\<lambda>(k, v). (Some k, Some v)) kvs"

text \<open>A well-formed cache whose entries \<open>es\<close> hold the pairs \<open>kvs\<close>, oldest first.\<close>

definition holds :: "('k, 'v) cache \<Rightarrow> ref list \<Rightarrow> ('k name \<times> 'v) list \<Rightarrow> bool" where
  "holds s es kvs \<longleftrightarrow>
     well_formed s es \<and> map (\<lambda>e. (ekey s e, evalue s e)) es = pairs kvs"

text \<open>The state of \<open>put\<close> once the new entry is the tail, before the count is looked at.\<close>

definition attach :: "'k name \<Rightarrow> 'v \<Rightarrow> ('k, 'v) cache \<Rightarrow> ('k, 'v) cache" where
  "attach key value s =
     s\<lparr>ekey := (ekey s)(Ent (nextaddr s) \<mapsto> key),
       evalue := (evalue s)(Ent (nextaddr s) \<mapsto> value),
       newer := (case tail s of None \<Rightarrow> (newer s)(Ent (nextaddr s) := None)
                 | Some t \<Rightarrow> (newer s)(Ent (nextaddr s) := None, t \<mapsto> Ent (nextaddr s))),
       older := (older s)(Ent (nextaddr s) := tail s),
       nextaddr := Suc (nextaddr s),
       head := (case tail s of None \<Rightarrow> Some (Ent (nextaddr s)) | Some t \<Rightarrow> head s),
       tail := Some (Ent (nextaddr s)),
       keys := (keys s)(key \<mapsto> Ent (nextaddr s))\<rparr>"

section \<open>Example caches\<close>

definition cache_a :: "(string, int) cache" where
  "cache_a = snd (puts [(Key ''a'', 1)] (new_cache (Fin 5)))"

definition cache_abc :: "(string, int) cache" where
  "cache_abc =
     snd (puts [(Key ''a'', 1), (Key ''b'', 2), (Key ''c'', 3)] (new_cache (Fin 5)))"

definition cache_abcde :: "(string, int) cache" where
  "cache_abcde =
     snd (puts [(Key ''a'', 1), (Key ''b'', 2), (Key ''c'', 3), (Key ''d'', 4), (Key ''e'', 5)]
            (new_cache (Fin 5)))"


text \<open>A cache of capacity 2 whose first key is an inherited name, after three insertions.\<close>

definition cache_toString :: "(string, int) cache" where
  "cache_toString =
     snd (puts [(Inherited ToString, 1), (Key ''b'', 2), (Key ''c'', 3)] (new_cache (Fin 2)))"

section \<open>Order lists and the heap\<close>

lemma seg_append: "seg nxt x (xs @ ys) z = (\<exists>y. seg nxt x xs y \<and> seg nxt y ys z)"
  by (induction xs arbitrary: x) auto

lemma seg_snoc: "seg nxt x (es @ [e]) z = (seg nxt x es (Some e) \<and> nxt e = z)"
  by (auto simp: seg_append)

lemma seg_upd_other: "e \<notin> set es \<Longrightarrow> seg (nxt(e := v)) x es z = seg nxt x es z"
  by (induction es arbitrary: x) auto

lemma seg_start_None: "seg nxt None es z \<Longrightarrow> es = [] \<and> z = None"
  by (cases es) auto

lemma seg_relink_last:
  assumes "distinct es" "es \<noteq> []" "seg nxt x es z"
  shows "seg (nxt(last es := z')) x es z'"
proof -
  from assms(2) obtain bs b where es: "es = bs @ [b]"
    by (cases es rule: rev_cases) auto
  with assms show ?thesis
    by (simp add: seg_snoc seg_upd_other)
qed

lemma seg_unlink:
  assumes d: "distinct (xs @ e # ys)" and s: "seg nxt x (xs @ e # ys) None"
  shows "seg (if xs = [] then nxt else nxt(last xs := nxt e))
             (if xs = [] then nxt e else x) (xs @ ys) None"
proof (cases "xs = []")
  case True
  with s show ?thesis by simp
next
  case False
  from s obtain y where a: "seg nxt x xs (Some e)" and b: "seg nxt (nxt e) ys None"
    by (auto simp: seg_append)
  from d False have "last xs \<notin> set ys"
    by (metis disjoint_iff distinct_append last_in_set list.set_intros(2))
  moreover from d have "distinct xs" by simp
  ultimately show ?thesis using False a b
    by (auto simp: seg_append seg_upd_other intro!: seg_relink_last exI[of _ "nxt e"])
qed

lemma seg_walk: "seg nxt x es None \<Longrightarrow> walk nxt x = Some es"
proof (induction es arbitrary: x)
  case Nil
  then show ?case by (subst walk.simps) simp
next
  case (Cons e es)
  then show ?case by (subst walk.simps) simp
qed

lemma seg_after:
  "seg nxt x (xs @ e # ys) None \<Longrightarrow> nxt e = (case ys of [] \<Rightarrow> None | y # _ \<Rightarrow> Some y)"
  by (cases ys) (auto simp: seg_append)

lemma lookup_own: "keys s k = Some e \<Longrightarrow> lookup s k = Some e"
  by (simp add: lookup_def)

lemma lookup_Key: "lookup s (Key k) = keys s (Key k)"
  by (simp add: lookup_def split: option.splits)

lemma remove_fields:
  assumes "lookup s k = Some e"
  shows "fst (remove k s) = value_of s e"
    and "keys (snd (remove k s)) = (keys s)(key_name s e := None)"
    and "currentSize (snd (remove k s)) = currentSize s - 1"
    and "cacheSize (snd (remove k s)) = cacheSize s"
    and "nextaddr (snd (remove k s)) = nextaddr s"
    and "ekey (snd (remove k s)) = ekey s"
    and "evalue (snd (remove k s)) = evalue s"
    and "newer (snd (remove k s)) =
           (case older s e of None \<Rightarrow> newer s | Some p \<Rightarrow> (newer s)(p := newer s e))"
    and "head (snd (remove k s)) = (case older s e of None \<Rightarrow> newer s e | Some p \<Rightarrow> head s)"
    and "older (snd (remove k s)) =
           (case newer s e of None \<Rightarrow> older s | Some n \<Rightarrow> (older s)(n := older s e))"
    and "tail (snd (remove k s)) = (case newer s e of None \<Rightarrow> older s e | Some n \<Rightarrow> tail s)"
  using assms
  by (auto simp: remove_def delete_key_of_def set_newer_def set_older_def value_of_def Let_def
           split: option.splits)

lemma linked_links:
  assumes "linked s (xs @ e # ys)"
  shows "newer s e = (if ys = [] then None else Some (hd ys))"
    and "older s e = (if xs = [] then None else Some (last xs))"
proof -
  from assms have f: "seg (newer s) (head s) (xs @ e # ys) None"
    and b: "seg (older s) (tail s) (rev ys @ e # rev xs) None"
    by (simp_all add: linked_def)
  from seg_after[OF f] show "newer s e = (if ys = [] then None else Some (hd ys))"
    by (cases ys) auto
  from seg_after[OF b] show "older s e = (if xs = [] then None else Some (last xs))"
    by (cases xs rule: rev_cases) auto
qed

lemma remove_linked:
  assumes l: "linked s es" and k: "lookup s k = Some e" and e: "e \<in> set es"
  shows "linked (snd (remove k s)) (remove1 e es)"
proof -
  from e obtain xs ys where es: "es = xs @ e # ys" and nx: "e \<notin> set xs"
    by (auto dest: split_list_first)
  from l es have d: "distinct (xs @ e # ys)" and d': "distinct (rev ys @ e # rev xs)"
    and f: "seg (newer s) (head s) (xs @ e # ys) None"
    and b: "seg (older s) (tail s) (rev ys @ e # rev xs) None"
    by (auto simp: linked_def)
  have r: "remove1 e es = xs @ ys"
    using es nx by (simp add: remove1_append)
  note lk = linked_links[OF l[unfolded es]]
  have f': "seg (newer (snd (remove k s))) (head (snd (remove k s))) (xs @ ys) None"
    using seg_unlink[OF d f] by (cases "xs = []"; cases "ys = []"; simp add: remove_fields[OF k] lk)
  have b': "seg (older (snd (remove k s))) (tail (snd (remove k s))) (rev ys @ rev xs) None"
    using seg_unlink[OF d' b]
    by (cases "xs = []"; cases "ys = []"; simp add: remove_fields[OF k] lk last_rev)
  from d f' b' show ?thesis
    by (auto simp: linked_def r)
qed

lemma remove_wf:
  assumes w: "well_formed s es" and k: "keys s k = Some e"
  shows "well_formed (snd (remove k s)) (remove1 e es)"
proof -
  from w k have e: "e \<in> set es" and ke: "ekey s e = Some k"
    by (auto simp: well_formed_def indexed_def)
  from w have d: "distinct es" by (simp add: well_formed_def linked_def)
  note lk = lookup_own[OF k]
  from ke have kn: "key_name s e = k" by (simp add: key_name_def)
  have "linked (snd (remove k s)) (remove1 e es)"
    using w lk e by (auto simp: well_formed_def intro: remove_linked)
  moreover have "indexed (snd (remove k s)) (remove1 e es)"
    unfolding indexed_def remove_fields(2,6)[OF lk] kn
  proof (intro conjI allI impI ballI)
    fix k' e'
    assume a: "((keys s)(k := None)) k' = Some e'"
    then have "k' \<noteq> k" "keys s k' = Some e'" by (auto split: if_splits)
    moreover from this w have "e' \<in> set es" "ekey s e' = Some k'"
      by (auto simp: well_formed_def indexed_def)
    ultimately have "e' \<noteq> e" using ke by auto
    then show "e' \<in> set (remove1 e es)" using \<open>e' \<in> set es\<close> by simp
    show "ekey s e' = Some k'" by fact
  next
    fix e'
    assume "e' \<in> set (remove1 e es)"
    with d have "e' \<in> set es" "e' \<noteq> e" by auto
    with w obtain k' where k': "ekey s e' = Some k'" "keys s k' = Some e'"
      by (auto simp: well_formed_def indexed_def)
    with k \<open>e' \<noteq> e\<close> have "k' \<noteq> k" by auto
    with k' show "\<exists>k'. ekey s e' = Some k' \<and> ((keys s)(k := None)) k' = Some e'" by auto
  qed
  moreover have "currentSize (snd (remove k s)) = int (length (remove1 e es))"
  proof -
    from e have "int (length es - 1) = int (length es) - 1" by (cases es) auto
    with w e show ?thesis
      by (simp add: well_formed_def remove_fields[OF lk] length_remove1)
  qed
  ultimately show ?thesis
    using w by (auto simp: well_formed_def remove_fields[OF lk] dest: notin_set_remove1)
qed

lemma shift_empty: "head s = None \<Longrightarrow> shift s = (Undefined, s)"
  by (simp add: shift_def)

lemma shift_fields:
  assumes "head s = Some e"
  shows "fst (shift s) = Obj e"
    and "keys (snd (shift s)) = (keys s)(key_name s e := None)"
    and "head (snd (shift s)) = newer s e"
    and "tail (snd (shift s)) = tail s"
    and "newer (snd (shift s)) = (newer s)(e := None)"
    and "older (snd (shift s)) =
           (case newer s e of None \<Rightarrow> (older s)(e := None)
            | Some n \<Rightarrow> (older s)(n := None, e := None))"
    and "currentSize (snd (shift s)) = currentSize s"
    and "cacheSize (snd (shift s)) = cacheSize s"
    and "nextaddr (snd (shift s)) = nextaddr s"
    and "ekey (snd (shift s)) = ekey s"
    and "evalue (snd (shift s)) = evalue s"
  using assms
  by (auto simp: shift_def delete_key_of_def key_name_def set_newer_def set_older_def Let_def
           split: option.splits)

lemma shift_ascending:
  assumes d: "distinct (e # ys)" and f: "seg (newer s) (head s) (e # ys) None"
  shows "seg (newer (snd (shift s))) (head (snd (shift s))) ys None"
proof -
  from f have h: "head s = Some e" by simp
  from d f show ?thesis
    by (simp add: shift_fields[OF h] seg_upd_other)
qed

lemma shift_linked:
  assumes l: "linked s (e # ys)" and ys: "ys \<noteq> []"
  shows "linked (snd (shift s)) ys"
proof -
  from l have d: "distinct (e # ys)" and f: "seg (newer s) (head s) (e # ys) None"
    and b: "seg (older s) (tail s) (rev ys @ e # []) None"
    and d': "distinct (rev ys @ e # [])"
    by (auto simp: linked_def)
  from f have h: "head s = Some e" by simp
  from linked_links[of s "[]" e ys] l ys
  have n: "newer s e = Some (hd ys)" and o: "older s e = None" by auto
  from seg_unlink[OF d' b] ys o
  have "seg ((older s)(hd ys := None)) (tail s) (rev ys) None"
    by (simp add: last_rev)
  with d have "seg (older (snd (shift s))) (tail (snd (shift s))) (rev ys) None"
    by (simp add: shift_fields[OF h] n seg_upd_other)
  with d shift_ascending[OF d f] show ?thesis
    by (simp add: linked_def)
qed

lemma shift_indexed:
  assumes i: "indexed s (e # ys)" and d: "distinct (e # ys)" and h: "head s = Some e"
  shows "indexed (snd (shift s)) ys"
proof -
  from i obtain k where k: "ekey s e = Some k" "keys s k = Some e"
    by (auto simp: indexed_def)
  then have kn: "key_name s e = k" by (simp add: key_name_def)
  show ?thesis
    unfolding indexed_def shift_fields[OF h] kn
  proof (intro conjI allI impI ballI)
    fix k' e'
    assume "((keys s)(k := None)) k' = Some e'"
    then have a: "k' \<noteq> k" "keys s k' = Some e'" by (auto split: if_splits)
    with i have b: "e' \<in> set (e # ys)" "ekey s e' = Some k'"
      by (auto simp: indexed_def)
    with a k have "e' \<noteq> e" by auto
    with b show "e' \<in> set ys" by simp
    show "ekey s e' = Some k'" by fact
  next
    fix e'
    assume e': "e' \<in> set ys"
    with d have "e' \<noteq> e" by auto
    from e' i obtain k' where k': "ekey s e' = Some k'" "keys s k' = Some e'"
      by (auto simp: indexed_def)
    with k \<open>e' \<noteq> e\<close> have "k' \<noteq> k" by auto
    with k' show "\<exists>k'. ekey s e' = Some k' \<and> ((keys s)(k := None)) k' = Some e'" by auto
  qed
qed

lemma put_attach:
  "put key value s =
     (if currentSize s = cacheSize s then shift (attach key value s)
      else (Null, (attach key value s)\<lparr>currentSize := currentSize s + 1\<rparr>))"
proof -
  have "put key value s =
     (\<lambda>t. if currentSize t = cacheSize t then shift t
          else (Null, t\<lparr>currentSize := currentSize t + 1\<rparr>)) (attach key value s)"
    unfolding put_def Let_def
    by (rule arg_cong[where f = "\<lambda>t. if currentSize t = cacheSize t then shift t
          else (Null, t\<lparr>currentSize := currentSize t + 1\<rparr>)"])
       (cases "tail s"; simp add: attach_def set_newer_def set_older_def cache.equality)
  then show ?thesis by (simp add: attach_def)
qed

lemma attach_linked:
  assumes l: "linked s es" and a: "Ent (nextaddr s) \<notin> set es"
  shows "linked (attach k v s) (es @ [Ent (nextaddr s)])"
proof (cases "es = []")
  case True
  with l have "tail s = None" by (simp add: linked_def)
  with True show ?thesis by (simp add: linked_def attach_def)
next
  case False
  from l have d: "distinct es" and f: "seg (newer s) (head s) es None"
    and b: "seg (older s) (tail s) (rev es) None"
    by (auto simp: linked_def)
  from False b have t: "tail s = Some (last es)"
    by (cases es rule: rev_cases) auto
  from f a have "seg ((newer s)(Ent (nextaddr s) := None)) (head s) es None"
    by (simp add: seg_upd_other)
  from seg_relink_last[OF d False this, of "Some (Ent (nextaddr s))"] a False
  have "seg (newer (attach k v s)) (head (attach k v s)) (es @ [Ent (nextaddr s)]) None"
    by (auto simp: attach_def t seg_snoc)
  moreover from b a
  have "seg (older (attach k v s)) (tail (attach k v s)) (rev (es @ [Ent (nextaddr s)])) None"
    by (simp add: attach_def seg_upd_other)
  ultimately show ?thesis using d a by (simp add: linked_def)
qed

lemma attach_indexed:
  assumes i: "indexed s es" and a: "Ent (nextaddr s) \<notin> set es" and k: "keys s k = None"
  shows "indexed (attach k v s) (es @ [Ent (nextaddr s)])"
  using assms unfolding indexed_def attach_def
  by (auto split: if_splits) (metis option.distinct(1))

lemma linked_currentSize [simp]: "linked (s\<lparr>currentSize := c\<rparr>) es = linked s es"
  by (simp add: linked_def)

lemma indexed_currentSize [simp]: "indexed (s\<lparr>currentSize := c\<rparr>) es = indexed s es"
  by (simp add: indexed_def)

lemma linked_head_tail:
  assumes "linked s es"
  shows "head s = (if es = [] then None else Some (hd es))"
    and "tail s = (if es = [] then None else Some (last es))"
proof -
  from assms have f: "seg (newer s) (head s) es None"
    and b: "seg (older s) (tail s) (rev es) None"
    by (simp_all add: linked_def)
  from f show "head s = (if es = [] then None else Some (hd es))"
    by (cases es) auto
  from b show "tail s = (if es = [] then None else Some (last es))"
    by (cases es rule: rev_cases) auto
qed

lemma linked_visited:
  assumes "linked s es"
  shows "visited False s = Some es" and "visited True s = Some (rev es)"
  using assms by (simp_all add: linked_def visited_def seg_walk)

lemma shift_frame:
  "ekey (snd (shift s)) = ekey s" "evalue (snd (shift s)) = evalue s"
  "nextaddr (snd (shift s)) = nextaddr s" "cacheSize (snd (shift s)) = cacheSize s"
  "currentSize (snd (shift s)) = currentSize s"
  by (cases "head s"; simp add: shift_empty shift_fields)+

lemma put_frame:
  "ekey (snd (put k v s)) = (ekey s)(Ent (nextaddr s) \<mapsto> k)"
  "evalue (snd (put k v s)) = (evalue s)(Ent (nextaddr s) \<mapsto> v)"
  "nextaddr (snd (put k v s)) = Suc (nextaddr s)"
  "cacheSize (snd (put k v s)) = cacheSize s"
  by (simp_all add: put_attach shift_frame) (simp_all add: attach_def)

lemma allocated_Suc: "allocated n e \<Longrightarrow> allocated (Suc n) e"
  by (cases e) auto

lemma wf_fresh: "well_formed s es \<Longrightarrow> Ent (nextaddr s) \<notin> set es"
  by (auto simp: well_formed_def)

lemma put_below:
  assumes w: "well_formed s es" and c: "currentSize s \<noteq> cacheSize s" and k: "keys s k = None"
  shows "fst (put k v s) = Null" and "well_formed (snd (put k v s)) (es @ [Ent (nextaddr s)])"
    and "keys (snd (put k v s)) = (keys s)(k \<mapsto> Ent (nextaddr s))"
proof -
  let ?t = "(attach k v s)\<lparr>currentSize := currentSize s + 1\<rparr>"
  from c have p: "put k v s = (Null, ?t)" by (simp add: put_attach)
  then show "fst (put k v s) = Null" by simp
  from p show "keys (snd (put k v s)) = (keys s)(k \<mapsto> Ent (nextaddr s))" by (simp add: attach_def)
  from w have "linked ?t (es @ [Ent (nextaddr s)])" "indexed ?t (es @ [Ent (nextaddr s)])"
    using k wf_fresh[OF w] by (auto simp: well_formed_def intro: attach_linked attach_indexed)
  moreover from w c wf_fresh[OF w]
  have "\<forall>e \<in> set (es @ [Ent (nextaddr s)]). allocated (nextaddr ?t) e \<and> evalue ?t e \<noteq> None"
    "currentSize ?t = int (length (es @ [Ent (nextaddr s)]))" "currentSize ?t \<le> cacheSize ?t"
    "minCacheSize \<le> cacheSize ?t"
    by (auto simp: well_formed_def attach_def allocated_Suc)
  ultimately show "well_formed (snd (put k v s)) (es @ [Ent (nextaddr s)])"
    unfolding p well_formed_def by simp
qed

lemma wf_full_nonempty:
  assumes "well_formed s es" "currentSize s = cacheSize s"
  shows "es \<noteq> []"
  using assms by (auto simp: well_formed_def minCacheSize_def)

lemma put_full:
  assumes w: "well_formed s es" and c: "currentSize s = cacheSize s" and k: "keys s k = None"
  shows "fst (put k v s) = Obj (hd es)"
    and "well_formed (snd (put k v s)) (tl es @ [Ent (nextaddr s)])"
    and "\<exists>k0. ekey s (hd es) = Some k0 \<and> k0 \<noteq> k \<and>
           keys (snd (put k v s)) = (keys s)(k \<mapsto> Ent (nextaddr s), k0 := None)"
proof -
  let ?t = "attach k v s"
  from wf_full_nonempty[OF w c] obtain e ys where es: "es = e # ys" by (cases es) auto
  from c have p: "put k v s = shift ?t" by (simp add: put_attach)
  from w k have l: "linked ?t (e # ys @ [Ent (nextaddr s)])"
    and i: "indexed ?t (e # ys @ [Ent (nextaddr s)])"
    using attach_linked[of s es k v] attach_indexed[of s es k v] wf_fresh[OF w]
    by (auto simp: well_formed_def es)
  from l have h: "head ?t = Some e" by (simp add: linked_def)
  from l have d: "distinct (e # ys @ [Ent (nextaddr s)])" by (simp add: linked_def)
  show "fst (put k v s) = Obj (hd es)" by (simp add: p shift_fields[OF h] es)
  have "linked (snd (shift ?t)) (ys @ [Ent (nextaddr s)])" by (rule shift_linked[OF l]) simp
  moreover have "indexed (snd (shift ?t)) (ys @ [Ent (nextaddr s)])" by (rule shift_indexed[OF i d h])
  moreover from w c wf_fresh[OF w]
  have "\<forall>x \<in> set (ys @ [Ent (nextaddr s)]). allocated (nextaddr ?t) x \<and> evalue ?t x \<noteq> None"
    "currentSize ?t = int (length (ys @ [Ent (nextaddr s)]))" "currentSize ?t \<le> cacheSize ?t"
    "minCacheSize \<le> cacheSize ?t"
    by (auto simp: well_formed_def attach_def es allocated_Suc)
  ultimately show "well_formed (snd (put k v s)) (tl es @ [Ent (nextaddr s)])"
    unfolding p well_formed_def by (simp add: shift_frame es)
  from w obtain k0 where k0: "ekey s e = Some k0" "keys s k0 = Some e"
    by (auto simp: well_formed_def indexed_def es)
  with k have "k0 \<noteq> k" by auto
  moreover from w have "e \<noteq> Ent (nextaddr s)" by (auto simp: well_formed_def es)
  then have "key_name ?t e = k0" using k0 by (simp add: attach_def key_name_def)
  then have "keys (snd (put k v s)) = (keys s)(k \<mapsto> Ent (nextaddr s), k0 := None)"
    by (simp add: p shift_fields[OF h]) (simp add: attach_def)
  ultimately show "\<exists>k0. ekey s (hd es) = Some k0 \<and> k0 \<noteq> k \<and>
           keys (snd (put k v s)) = (keys s)(k \<mapsto> Ent (nextaddr s), k0 := None)"
    using k0 by (auto simp: es)
qed

lemma puts_Cons:
  "fst (puts ((k, v) # kvs) s) = fst (put k v s) # fst (puts kvs (snd (put k v s)))"
  "snd (puts ((k, v) # kvs) s) = snd (puts kvs (snd (put k v s)))"
  by (simp_all split: prod.splits)

lemma puts_snoc:
  "puts (kvs @ [(k, v)]) s =
     (let (rs, s1) = puts kvs s; (r, s2) = put k v s1 in (rs @ [r], s2))"
  by (induction kvs arbitrary: s) (auto simp: Let_def split: prod.splits)

lemma holds_absent:
  assumes "holds s es kvs" "k \<notin> fst ` set kvs"
  shows "keys s k = None"
proof (rule ccontr)
  assume "keys s k \<noteq> None"
  then obtain e where e: "keys s k = Some e" by auto
  with assms(1) have "e \<in> set es" "ekey s e = Some k"
    by (auto simp: holds_def well_formed_def indexed_def)
  then have "(Some k, evalue s e) \<in> set (map (\<lambda>e. (ekey s e, evalue s e)) es)"
    by force
  with assms(1) have "(Some k, evalue s e) \<in> set (pairs kvs)" by (simp add: holds_def)
  with assms(2) show False by (force simp: pairs_def)
qed

lemma holds_present:
  assumes "holds s es kvs" "k \<in> fst ` set kvs"
  shows "keys s k \<noteq> None"
proof -
  from assms(2) obtain v where "(Some k, Some v) \<in> set (pairs kvs)"
    by (force simp: pairs_def)
  with assms(1) have "(Some k, Some v) \<in> set (map (\<lambda>e. (ekey s e, evalue s e)) es)"
    by (simp add: holds_def)
  then obtain e where "e \<in> set es" "ekey s e = Some k"
    by auto
  with assms(1) show ?thesis by (auto simp: holds_def well_formed_def indexed_def)
qed

lemma holds_iterate:
  assumes "holds s es kvs"
  shows "iterate False s = Some (pairs kvs)"
proof -
  from assms have "visited False s = Some es" by (simp add: holds_def well_formed_def linked_visited)
  with assms show ?thesis by (simp add: holds_def iterate_def)
qed

lemma put_old_fields:
  assumes "Ent (nextaddr s) \<notin> set es"
  shows "map (\<lambda>e. (ekey (snd (put k v s)) e, evalue (snd (put k v s)) e)) es
           = map (\<lambda>e. (ekey s e, evalue s e)) es"
  using assms by (intro map_cong refl) (auto simp: put_frame)

lemma holds_put_below:
  assumes h: "holds s es kvs" and c: "currentSize s \<noteq> cacheSize s" and k: "k \<notin> fst ` set kvs"
  shows "fst (put k v s) = Null"
    and "holds (snd (put k v s)) (es @ [Ent (nextaddr s)]) (kvs @ [(k, v)])"
proof -
  from h have w: "well_formed s es" by (simp add: holds_def)
  note a = holds_absent[OF h k]
  show "fst (put k v s) = Null" by (rule put_below[OF w c a])
  from h wf_fresh[OF w]
  have "map (\<lambda>e. (ekey (snd (put k v s)) e, evalue (snd (put k v s)) e)) (es @ [Ent (nextaddr s)])
          = pairs (kvs @ [(k, v)])"
    by (simp add: holds_def put_old_fields) (simp add: put_frame pairs_def)
  with put_below(2)[OF w c a] show "holds (snd (put k v s)) (es @ [Ent (nextaddr s)]) (kvs @ [(k, v)])"
    by (simp add: holds_def)
qed

lemma holds_put_full:
  assumes h: "holds s es kvs" and c: "currentSize s = cacheSize s" and k: "k \<notin> fst ` set kvs"
  shows "fst (put k v s) = Obj (hd es)"
    and "holds (snd (put k v s)) (tl es @ [Ent (nextaddr s)]) (tl kvs @ [(k, v)])"
proof -
  from h have w: "well_formed s es" by (simp add: holds_def)
  note a = holds_absent[OF h k]
  show "fst (put k v s) = Obj (hd es)" by (rule put_full[OF w c a])
  from wf_full_nonempty[OF w c] obtain e ys where es: "es = e # ys" by (cases es) auto
  with h obtain kv kvs' where kvs: "kvs = kv # kvs'" by (cases kvs) (auto simp: holds_def pairs_def)
  from wf_fresh[OF w] have "Ent (nextaddr s) \<notin> set (tl es)" by (auto simp: es)
  with h
  have "map (\<lambda>e. (ekey (snd (put k v s)) e, evalue (snd (put k v s)) e)) (tl es @ [Ent (nextaddr s)])
          = pairs (tl kvs @ [(k, v)])"
    by (simp add: holds_def put_old_fields) (simp add: put_frame pairs_def es kvs)
  with put_full(2)[OF w c a]
  show "holds (snd (put k v s)) (tl es @ [Ent (nextaddr s)]) (tl kvs @ [(k, v)])"
    by (simp add: holds_def)
qed

lemma holds_puts:
  assumes "holds s es kvs0" "distinct (map fst (kvs0 @ kvs))"
    "int (length kvs0 + length kvs) \<le> cacheSize s"
  shows "fst (puts kvs s) = replicate (length kvs) Null \<and>
         holds (snd (puts kvs s)) (es @ map Ent [nextaddr s ..< nextaddr s + length kvs])
           (kvs0 @ kvs) \<and>
         cacheSize (snd (puts kvs s)) = cacheSize s \<and>
         nextaddr (snd (puts kvs s)) = nextaddr s + length kvs"
  using assms
proof (induction kvs arbitrary: s es kvs0)
  case Nil
  then show ?case by simp
next
  case (Cons kv kvs)
  obtain k v where kv: "kv = (k, v)" by (cases kv)
  from Cons.prems have len: "length es = length kvs0"
    by (auto simp: holds_def pairs_def dest: map_eq_imp_length_eq)
  from Cons.prems have c: "currentSize s \<noteq> cacheSize s"
    by (auto simp: holds_def well_formed_def len)
  from Cons.prems have k: "k \<notin> fst ` set kvs0" by (auto simp: kv)
  let ?s = "snd (put k v s)"
  note p = holds_put_below[OF Cons.prems(1) c k, of v]
  have "fst (puts kvs ?s) = replicate (length kvs) Null \<and>
         holds (snd (puts kvs ?s))
           ((es @ [Ent (nextaddr s)]) @ map Ent [nextaddr ?s ..< nextaddr ?s + length kvs])
           ((kvs0 @ [(k, v)]) @ kvs) \<and>
         cacheSize (snd (puts kvs ?s)) = cacheSize ?s \<and>
         nextaddr (snd (puts kvs ?s)) = nextaddr ?s + length kvs"
    using Cons.prems by (intro Cons.IH p) (auto simp: kv put_frame)
  moreover have e1: "(es @ [Ent (nextaddr s)]) @ map Ent [nextaddr ?s ..< nextaddr ?s + length kvs]
      = es @ map Ent [nextaddr s ..< nextaddr s + length ((k, v) # kvs)]"
    by (simp add: put_frame upt_conv_Cons del: upt_Suc)
  ultimately show ?case using p(1) unfolding e1 kv puts_Cons
    by (simp add: put_frame del: upt_Suc)
qed

lemma toNumber_floor:
  "minV \<le> maxV \<Longrightarrow> minV \<le> onFailed \<Longrightarrow> minV \<le> toNumber x onFailed minV maxV"
  by (auto simp: toNumber_def Let_def split: jsnum.splits)

lemma new_cache_floor: "minCacheSize \<le> cacheSize (new_cache x)"
  by (simp add: new_cache_def toNumber_floor minCacheSize_def MAX_VALUE_def)

lemma new_cache_holds: "holds (new_cache x) [] []"
  using new_cache_floor[of x]
  by (simp add: holds_def well_formed_def linked_def indexed_def pairs_def)
     (simp add: new_cache_def minCacheSize_def)

section \<open>Evaluation and the example caches\<close>

lemma walk_None: "walk nxt None = Some []"
  by (subst walk.simps) simp

lemma walk_Some: "walk nxt (Some e) = Option.bind (walk nxt (nxt e)) (\<lambda>es. Some (e # es))"
  by (subst walk.simps) simp

lemmas cache_eval =
  new_cache_def toNumber_def toFixed0_def isFinite_def isNaN_def MAX_VALUE_def minCacheSize_def
  put_def shift_def get_def remove_def isSet_def set_newer_def set_older_def delete_key_of_def
  key_name_def lookup_def value_of_def iterate_def visited_def walk_None walk_Some Let_def

lemma put_tail: "tail (snd (put k v s)) = Some (Ent (nextaddr s))"
  by (cases "head (attach k v s)")
     (simp_all add: put_attach shift_empty shift_fields, simp_all add: attach_def)

lemma get_absent: "lookup s k = None \<Longrightarrow> get k r s = (Undefined, s)"
  by (simp add: get_def)

lemma get_fields:
  assumes "lookup s k = Some e"
  shows "tail (snd (get k r s)) = Some e"
    and "keys (snd (get k r s)) = keys s"
    and "evalue (snd (get k r s)) = evalue s"
    and "fst (get k r s) = (if r then Obj e else value_of s e)"
  using assms
  by (auto simp: get_def Let_def set_newer_def set_older_def value_of_def split: option.splits)

lemma get_at_tail: "lookup s k = Some e \<Longrightarrow> tail s = Some e \<Longrightarrow> snd (get k r s) = s"
  by (simp add: get_def)

lemma cache_abc_wf: "well_formed cache_abc [Ent 0, Ent 1, Ent 2]"
  by (simp add: cache_abc_def cache_eval well_formed_def linked_def indexed_def)

lemma cache_a_wf: "well_formed cache_a [Ent 0]"
  by (simp add: cache_a_def cache_eval well_formed_def linked_def indexed_def)

lemma cache_abc_keys:
  "keys cache_abc (Key ''a'') = Some (Ent 0)" "keys cache_abc (Key ''b'') = Some (Ent 1)"
  "keys cache_abc (Key ''c'') = Some (Ent 2)" "keys cache_abc (Key ''z'') = None"
  by (simp_all add: cache_abc_def cache_eval)

lemma get_links:
  assumes "lookup s k = Some e" "tail s \<noteq> Some e"
  shows "head (snd (get k r s)) =
           (case newer s e of None \<Rightarrow> head s
            | Some n \<Rightarrow> if head s = Some e then Some n else head s)"
    and "older (snd (get k r s)) =
           (case newer s e of None \<Rightarrow> older s | Some n \<Rightarrow> (older s)(n := older s e))
           (e := tail s)"
    and "newer (snd (get k r s)) =
           (case tail s of
              None \<Rightarrow> (case older s e of None \<Rightarrow> newer s | Some p \<Rightarrow> (newer s)(p := newer s e))
                        (e := None)
            | Some t \<Rightarrow> (case older s e of None \<Rightarrow> newer s | Some p \<Rightarrow> (newer s)(p := newer s e))
                        (e := None, t \<mapsto> e))"
    and "ekey (snd (get k r s)) = ekey s" "nextaddr (snd (get k r s)) = nextaddr s"
    and "currentSize (snd (get k r s)) = currentSize s" "cacheSize (snd (get k r s)) = cacheSize s"
  using assms
  by (auto simp: get_def Let_def set_newer_def set_older_def split: option.splits)

lemma get_linked:
  assumes l: "linked s es" and k: "lookup s k = Some e" and e: "e \<in> set es"
  shows "linked (snd (get k r s)) (remove1 e es @ [e])"
proof (cases "tail s = Some e")
  case True
  from l e have "es \<noteq> []" "tail s = Some (last es)" by (auto simp: linked_head_tail)
  with True have "last es = e" by simp
  with \<open>es \<noteq> []\<close> obtain bs where es: "es = bs @ [e]" by (cases es rule: rev_cases) auto
  with l have "e \<notin> set bs" by (simp add: linked_def)
  then have "remove1 e es @ [e] = es" by (simp add: es remove1_append)
  with l True k show ?thesis by (simp add: get_at_tail)
next
  case False
  from e obtain xs ys where es: "es = xs @ e # ys" and nx: "e \<notin> set xs"
    by (auto dest: split_list_first)
  from l es have d: "distinct (xs @ e # ys)" and d': "distinct (rev ys @ e # rev xs)"
    and f: "seg (newer s) (head s) (xs @ e # ys) None"
    and b: "seg (older s) (tail s) (rev ys @ e # rev xs) None"
    by (auto simp: linked_def)
  from d have ny: "e \<notin> set ys" by simp
  have r: "remove1 e es = xs @ ys" using es nx by (simp add: remove1_append)
  note lk = linked_links[OF l[unfolded es]]
  from l have t: "tail s = Some (last es)" and h: "head s = Some (hd es)"
    by (simp_all add: linked_head_tail es)
  from False t have ys: "ys \<noteq> []" by (auto simp: es)
  with t have t': "tail s = Some (last ys)" by (simp add: es)
  from d ys have le: "last ys \<noteq> e" by auto
  have he: "(head s = Some e) = (xs = [])"
    using h d by (cases xs) (auto simp: es)
  let ?s = "snd (get k r s)"
  let ?f = "if xs = [] then newer s else (newer s)(last xs := newer s e)"
  have "seg ?f (head ?s) (xs @ ys) None"
    using seg_unlink[OF d f] ys by (cases "xs = []"; simp add: get_links[OF k False] lk he)
  with nx ny have "seg (?f(e := None)) (head ?s) (xs @ ys) None"
    by (simp add: seg_upd_other)
  from seg_relink_last[OF _ _ this, of "Some e"] d ys
  have "seg (?f(e := None, last ys \<mapsto> e)) (head ?s) (xs @ ys) (Some e)" by simp
  moreover have "newer ?s = ?f(e := None, last ys \<mapsto> e)"
    by (cases "xs = []") (simp_all add: get_links[OF k False] lk t')
  ultimately have f': "seg (newer ?s) (head ?s) ((xs @ ys) @ [e]) None"
    using le by (simp add: seg_snoc del: append_assoc)
  have "seg ((older s)(hd ys := older s e)) (tail s) (rev ys @ rev xs) None"
    using seg_unlink[OF d' b] ys by (simp add: last_rev)
  with nx ny have "seg ((older s)(hd ys := older s e, e := tail s)) (tail s) (rev ys @ rev xs) None"
    by (simp add: seg_upd_other)
  moreover have "older ?s = (older s)(hd ys := older s e, e := tail s)"
    using ys by (simp add: get_links[OF k False] lk)
  ultimately have b': "seg (older ?s) (tail ?s) (rev ((xs @ ys) @ [e])) None"
    by (simp add: get_fields[OF k])
  from d f' b' show ?thesis by (auto simp: linked_def r)
qed

lemma get_wf:
  assumes w: "well_formed s es" and k0: "keys s k = Some e"
  shows "well_formed (snd (get k r s)) (remove1 e es @ [e])"
proof -
  note k = lookup_own[OF k0]
  from w k0 have e: "e \<in> set es" by (auto simp: well_formed_def indexed_def)
  from w have d: "distinct es" by (simp add: well_formed_def linked_def)
  from e d have se: "set (remove1 e es @ [e]) = set es" by auto
  from e have len: "length (remove1 e es @ [e]) = length es"
    using length_pos_if_in_set[OF e] by (simp add: length_remove1)
  have fr: "ekey (snd (get k r s)) = ekey s" "nextaddr (snd (get k r s)) = nextaddr s"
    "currentSize (snd (get k r s)) = currentSize s" "cacheSize (snd (get k r s)) = cacheSize s"
    by (cases "tail s = Some e"; simp add: get_at_tail[OF k] get_links[OF k])+
  from w k e have "linked (snd (get k r s)) (remove1 e es @ [e])"
    by (auto simp: well_formed_def intro: get_linked)
  moreover from w have "indexed (snd (get k r s)) (remove1 e es @ [e])"
    unfolding well_formed_def indexed_def se by (simp add: get_fields[OF k] fr)
  ultimately show ?thesis
    using w unfolding well_formed_def se len by (simp add: get_fields[OF k] fr)
qed

lemma shift_times_frame:
  "cacheSize (((\<lambda>t. snd (shift t)) ^^ n) s) = cacheSize s"
  "currentSize (((\<lambda>t. snd (shift t)) ^^ n) s) = currentSize s"
  by (induction n) (simp_all add: shift_frame)

lemma toFixed0_of_int: "toFixed0 (of_int c) = c"
  by (simp add: toFixed0_def)

lemma new_cache_capacity:
  "minCacheSize \<le> c \<Longrightarrow> c \<le> MAX_VALUE \<Longrightarrow> cacheSize (new_cache (Fin (of_int c))) = c"
  by (simp add: new_cache_def toNumber_def isFinite_def isNaN_def toFixed0_of_int)

lemma limit_set_bound:
  "\<exists>s'. limit_set (Some underscore_times) y s = Inr (Undefined, s') \<and>
        cacheSize s' = (case y of Fin i \<Rightarrow> if i < minCacheSize then minCacheSize else i
                        | _ \<Rightarrow> minCacheSize) \<and>
        currentSize s' = currentSize s"
  by (simp add: limit_set_def Let_def underscore_times_def shift_times_frame)

lemma limit_set_unbound:
  "currentSize s \<noteq> (case y of Fin i \<Rightarrow> if i < minCacheSize then minCacheSize else i
                        | _ \<Rightarrow> minCacheSize)
   \<Longrightarrow> limit_set None y s =
         Inl (ReferenceError,
              s\<lparr>cacheSize := (case y of Fin i \<Rightarrow> if i < minCacheSize then minCacheSize else i
                                | _ \<Rightarrow> minCacheSize)\<rparr>)"
  by (simp add: limit_set_def Let_def)

section \<open>What the operations do on well-formed caches\<close>

text \<open>
  \<open>capacity + 1\<close> consecutive \<open>put\<close> calls with distinct names on a fresh cache: the first
  \<open>capacity\<close> calls return \<open>null\<close>, the last one returns the entry of the first call, whose name
  is no own property of the index afterwards; the other names are, and the order list holds
  the last \<open>capacity\<close> pairs.  What \<open>isSet\<close> then returns for the first name depends on the
  name: the function of \<open>Object.prototype\<close> for an inherited name, \<open>undefined\<close> for any other.
\<close>

lemma puts_beyond_capacity:
  fixes kvs :: "('k name \<times> 'v) list"
  assumes d: "distinct (map fst kvs)"
    and n: "int (length kvs) = cacheSize (new_cache x :: ('k, 'v) cache) + 1"
  shows "fst (puts kvs (new_cache x)) = replicate (length kvs - 1) Null @ [Obj (Ent 0)]"
    and "ekey (snd (puts kvs (new_cache x))) (Ent 0) = Some (fst (hd kvs))"
    and "evalue (snd (puts kvs (new_cache x))) (Ent 0) = Some (snd (hd kvs))"
    and "keys (snd (puts kvs (new_cache x))) (fst (hd kvs)) = None"
    and "\<forall>k \<in> fst ` set (tl kvs). keys (snd (puts kvs (new_cache x))) k \<noteq> None"
    and "iterate False (snd (puts kvs (new_cache x))) = Some (pairs (tl kvs))"
    and "fst (isSet (fst (hd kvs)) (snd (puts kvs (new_cache x)))) =
           (case fst (hd kvs) of Inherited b \<Rightarrow> Obj (Func b) | _ \<Rightarrow> Undefined)"
proof -
  let ?s0 = "new_cache x :: ('k, 'v) cache"
  from n new_cache_floor[of x, where ?'a = 'k and ?'b = 'v] have "kvs \<noteq> []"
    by (auto simp: minCacheSize_def)
  then obtain kvs' k v where kvs: "kvs = kvs' @ [(k, v)]"
    by (cases kvs rule: rev_cases) auto
  with n have len: "int (length kvs') = cacheSize ?s0" by simp
  with new_cache_floor[of x, where ?'a = 'k and ?'b = 'v] have ne: "kvs' \<noteq> []"
    by (auto simp: minCacheSize_def)
  then obtain k0 v0 rest where kvs': "kvs' = (k0, v0) # rest" by (cases kvs') auto
  let ?s1 = "snd (puts kvs' ?s0)"
  have n0: "nextaddr ?s0 = 0" by (simp add: new_cache_def)
  from holds_puts[OF new_cache_holds, of kvs' x] d len
  have r1: "fst (puts kvs' ?s0) = replicate (length kvs') Null"
    and h1: "holds ?s1 (map Ent [0 ..< length kvs']) kvs'"
    and c1: "cacheSize ?s1 = cacheSize ?s0"
    and n1: "nextaddr ?s1 = length kvs'"
    by (simp_all add: kvs n0)
  from h1 have full: "currentSize ?s1 = cacheSize ?s1"
    by (simp add: holds_def well_formed_def c1 len)
  from d have k: "k \<notin> fst ` set kvs'" by (auto simp: kvs)
  note p = holds_put_full[OF h1 full k, of v]
  have hd0: "hd (map Ent [0 ..< length kvs']) = Ent 0"
    by (simp add: kvs' upt_conv_Cons del: upt_Suc)
  let ?s2 = "snd (put k v ?s1)"
  have s2: "snd (puts kvs ?s0) = ?s2"
    and r2: "fst (puts kvs ?s0) = fst (puts kvs' ?s0) @ [fst (put k v ?s1)]"
    by (simp_all add: kvs puts_snoc split: prod.splits)
  have tlk: "tl kvs = tl kvs' @ [(k, v)]" and hdk: "hd kvs = (k0, v0)"
    by (simp_all add: kvs kvs')
  from h1 have "map (\<lambda>e. (ekey ?s1 e, evalue ?s1 e)) (map Ent [0 ..< length kvs']) = pairs kvs'"
    by (simp add: holds_def)
  then have f0: "ekey ?s1 (Ent 0) = Some k0" "evalue ?s1 (Ent 0) = Some v0"
    by (simp_all add: kvs' pairs_def upt_conv_Cons del: upt_Suc)
  have f2: "ekey ?s2 (Ent 0) = Some k0" "evalue ?s2 (Ent 0) = Some v0"
    using f0 ne by (simp_all add: put_frame n1)
  from d have k0: "k0 \<notin> fst ` set (tl kvs)" by (auto simp: kvs kvs')
  note p2 = p(2)[unfolded tlk[symmetric]]
  have a0: "keys ?s2 k0 = None" by (rule holds_absent[OF p2 k0])
  show "fst (puts kvs ?s0) = replicate (length kvs - 1) Null @ [Obj (Ent 0)]"
    by (simp add: r2 r1 p(1) hd0) (simp add: kvs)
  show "ekey (snd (puts kvs ?s0)) (Ent 0) = Some (fst (hd kvs))"
    and "evalue (snd (puts kvs ?s0)) (Ent 0) = Some (snd (hd kvs))"
    using f2 by (simp_all add: s2 hdk)
  show "keys (snd (puts kvs ?s0)) (fst (hd kvs)) = None"
    using a0 by (simp add: s2 hdk)
  show "\<forall>k \<in> fst ` set (tl kvs). keys (snd (puts kvs ?s0)) k \<noteq> None"
    using holds_present[OF p2] by (simp add: s2)
  show "iterate False (snd (puts kvs ?s0)) = Some (pairs (tl kvs))"
    using p2 unfolding s2 by (rule holds_iterate)
  show "fst (isSet (fst (hd kvs)) (snd (puts kvs ?s0))) =
           (case fst (hd kvs) of Inherited b \<Rightarrow> Obj (Func b) | _ \<Rightarrow> Undefined)"
    using a0 by (simp add: s2 hdk isSet_def lookup_def split: name.splits)
qed

text \<open>
  \<open>remove(k)\<close> when \<open>_keys[k]\<close> is \<open>undefined\<close> returns \<open>undefined\<close> and leaves the whole state as
  it was.  In a well-formed cache with order list \<open>es\<close>, \<open>remove(k)\<close> of a name that the index
  owns returns the value of its entry \<open>e\<close> and leaves a well-formed cache whose order list is
  \<open>es\<close> without \<open>e\<close>, wherever \<open>e\<close> stood.
\<close>

lemma remove_undefined: "lookup s k = None \<Longrightarrow> remove k s = (Undefined, s)"
  by (simp add: remove_def)

lemma remove_own:
  assumes k: "keys s k = Some e" and w: "well_formed s es"
  shows "e \<in> set es"
    and "\<exists>v. evalue s e = Some v \<and> fst (remove k s) = Value v"
    and "well_formed (snd (remove k s)) (remove1 e es)"
    and "visited False (snd (remove k s)) = Some (remove1 e es)"
    and "visited True (snd (remove k s)) = Some (rev (remove1 e es))"
    and "head (snd (remove k s)) = (if remove1 e es = [] then None else Some (hd (remove1 e es)))"
    and "tail (snd (remove k s)) = (if remove1 e es = [] then None else Some (last (remove1 e es)))"
    and "keys (snd (remove k s)) = (keys s)(k := None)"
    and "currentSize (snd (remove k s)) = currentSize s - 1"
proof -
  from w k show e: "e \<in> set es" by (auto simp: well_formed_def indexed_def)
  from w k have ke: "key_name s e = k"
    by (auto simp: well_formed_def indexed_def key_name_def)
  from w e obtain v where v: "evalue s e = Some v" by (auto simp: well_formed_def)
  note lk = lookup_own[OF k]
  note w' = remove_wf[OF w k]
  then show "well_formed (snd (remove k s)) (remove1 e es)" .
  from w' have l: "linked (snd (remove k s)) (remove1 e es)" by (simp add: well_formed_def)
  from v show "\<exists>v. evalue s e = Some v \<and> fst (remove k s) = Value v"
    by (simp add: remove_fields[OF lk] value_of_def)
  from linked_visited[OF l]
  show "visited False (snd (remove k s)) = Some (remove1 e es)"
    and "visited True (snd (remove k s)) = Some (rev (remove1 e es))" by simp_all
  from linked_head_tail[OF l]
  show "head (snd (remove k s)) = (if remove1 e es = [] then None else Some (hd (remove1 e es)))"
    and "tail (snd (remove k s)) = (if remove1 e es = [] then None else Some (last (remove1 e es)))"
    by simp_all
  show "keys (snd (remove k s)) = (keys s)(k := None)"
    and "currentSize (snd (remove k s)) = currentSize s - 1"
    by (simp_all add: remove_fields[OF lk] ke)
qed

text \<open>
  \<open>shift\<close> on a state whose order list from the head is the non-empty list \<open>es\<close>: it returns
  the head entry, deletes the name of that entry from the index and leaves the rest of \<open>es\<close>
  on the walk from the head.  \<open>tail\<close> and \<open>_currentSize\<close> are left as they were.
\<close>

lemma shift_head:
  assumes d: "distinct es" and f: "seg (newer s) (head s) es None" and ne: "es \<noteq> []"
  shows "fst (shift s) = Obj (hd es)"
    and "keys (snd (shift s)) = (keys s)(key_name s (hd es) := None)"
    and "visited False (snd (shift s)) = Some (tl es)"
    and "tail (snd (shift s)) = tail s"
    and "currentSize (snd (shift s)) = currentSize s"
proof -
  from ne obtain e ys where es: "es = e # ys" by (cases es) auto
  from f have h: "head s = Some e" by (simp add: es)
  show "fst (shift s) = Obj (hd es)"
    and "keys (snd (shift s)) = (keys s)(key_name s (hd es) := None)"
    and "tail (snd (shift s)) = tail s"
    and "currentSize (snd (shift s)) = currentSize s"
    by (simp_all add: es shift_fields[OF h])
  show "visited False (snd (shift s)) = Some (tl es)"
    using shift_ascending[OF d[unfolded es] f[unfolded es]]
    by (simp add: es visited_def seg_walk)
qed

section \<open>The claims\<close>

text \<open>
  C1.  The count never exceeds the capacity after a call: the code does not keep this.  On a
  cache of capacity 5 that holds five entries, \<open>limit = 3\<close> (with \<open>_\<close> bound to the library)
  sets \<open>_cacheSize\<close> to 3 and evicts two entries through \<open>shift\<close>, which never decrements
  \<open>_currentSize\<close>: the call returns with a count of 5 against a capacity of 3.  From then on
  \<open>put\<close> finds the count different from the capacity and evicts nothing: two more insertions
  leave five entries in a cache of capacity 3, counted as 7.
\<close>

theorem count_exceeds_capacity:
  "(case run (Some underscore_times)
           [Put (Key ''a'') 1, Put (Key ''b'') 2, Put (Key ''c'') 3, Put (Key ''d'') 4,
            Put (Key ''e'') 5, LimitSet (Fin 3)]
           (new_cache (Fin 5) :: (string, int) cache) of
      Inl e \<Rightarrow> False
    | Inr s \<Rightarrow> cacheSize s = 3 \<and> currentSize s = 5) \<and>
   (case run (Some underscore_times)
           [Put (Key ''a'') 1, Put (Key ''b'') 2, Put (Key ''c'') 3, Put (Key ''d'') 4,
            Put (Key ''e'') 5, LimitSet (Fin 3), Put (Key ''f'') 6, Put (Key ''g'') 7]
           (new_cache (Fin 5) :: (string, int) cache) of
      Inl e \<Rightarrow> False
    | Inr s \<Rightarrow> cacheSize s = 3 \<and> currentSize s = 7 \<and>
        iterate False s =
          Some [(Some (Key ''c''), Some 3), (Some (Key ''d''), Some 4), (Some (Key ''e''), Some 5),
                (Some (Key ''f''), Some 6), (Some (Key ''g''), Some 7)])"
  by (simp add: limit_set_def underscore_times_def cache_eval eval_nat_numeral)

text \<open>
  C2.  No operation throws, and assigning a limit below the count completes without raising:
  the code does not keep this.  The file uses the identifier \<open>_\<close> and binds it nowhere.  With
  the file loaded on its own, on the cache of capacity 5 that holds five entries, \<open>limit = 3\<close>
  assigns \<open>_cacheSize = 3\<close> and then raises a \<open>ReferenceError\<close> at \<open>_.times\<close>: no entry has been
  evicted, and the cache is left with five entries and a capacity of 3.  The same happens
  after the five \<open>put\<close> calls of a sequence, and on a fresh cache of capacity 5 when the
  argument is not a number: the capacity is clamped to 2 and the setter raises.
\<close>

theorem limit_set_throws:
  "currentSize cache_abcde = 5 \<and> cacheSize cache_abcde = 5 \<and>
   (case limit_set None (Fin 3) cache_abcde of
      Inl (e, s) \<Rightarrow> e = ReferenceError \<and> cacheSize s = 3 \<and> currentSize s = 5 \<and>
        iterate False s =
          Some [(Some (Key ''a''), Some 1), (Some (Key ''b''), Some 2), (Some (Key ''c''), Some 3),
                (Some (Key ''d''), Some 4), (Some (Key ''e''), Some 5)]
    | Inr r \<Rightarrow> False) \<and>
   (case run None
           [Put (Key ''a'') 1, Put (Key ''b'') 2, Put (Key ''c'') 3, Put (Key ''d'') 4,
            Put (Key ''e'') 5, LimitSet (Fin 3)]
           (new_cache (Fin 5) :: (string, int) cache) of
      Inl (e, s) \<Rightarrow> e = ReferenceError \<and> cacheSize s = 3 \<and> currentSize s = 5
    | Inr s \<Rightarrow> False) \<and>
   (case limit_set None NaN (new_cache (Fin 5) :: (string, int) cache) of
      Inl (e, s) \<Rightarrow> e = ReferenceError \<and> cacheSize s = 2 \<and> currentSize s = 0
    | Inr r \<Rightarrow> False)"
  by (simp add: cache_abcde_def limit_set_def cache_eval)

text \<open>
  C3.  The shrink example, run on the code with \<open>_\<close> bound to the library: the cache of
  capacity 5 holds \<open>a, b, c, d, e\<close>, oldest first; \<open>limit = 3\<close> evicts exactly \<open>a\<close> and \<open>b\<close> and
  leaves \<open>c, d, e\<close> with \<open>c\<close> at the head, and the capacity is 3.  The count, however, is still
  5 and not 3: \<open>shift\<close> does not decrement \<open>_currentSize\<close>, so the eviction does not bring the
  count down to the capacity.
\<close>

theorem limit_shrink_keeps_count:
  "iterate False cache_abcde =
     Some [(Some (Key ''a''), Some 1), (Some (Key ''b''), Some 2), (Some (Key ''c''), Some 3),
           (Some (Key ''d''), Some 4), (Some (Key ''e''), Some 5)] \<and>
   currentSize cache_abcde = 5 \<and> cacheSize cache_abcde = 5 \<and>
   (case limit_set (Some underscore_times) (Fin 3) cache_abcde of
      Inl e \<Rightarrow> False
    | Inr (r, s) \<Rightarrow>
        iterate False s =
          Some [(Some (Key ''c''), Some 3), (Some (Key ''d''), Some 4), (Some (Key ''e''), Some 5)] \<and>
        head s = keys s (Key ''c'') \<and> keys s (Key ''a'') = None \<and> keys s (Key ''b'') = None \<and>
        cacheSize s = 3 \<and> currentSize s = 5)"
  by (simp add: cache_abcde_def limit_set_def underscore_times_def cache_eval eval_nat_numeral)

text \<open>
  C4.  On a fresh cache of capacity 2 and for distinct names \<open>x\<close>, \<open>y\<close>, \<open>z\<close> (inherited
  names included): \<open>put(x,1)\<close> and \<open>put(y,2)\<close> evict nothing, \<open>get(x)\<close> returns 1 and makes \<open>x\<close>
  the most recently used entry, \<open>put(z,3)\<close> returns the evicted entry of \<open>y\<close>, and the cache
  then contains exactly \<open>x:1\<close> and \<open>z:3\<close>.
\<close>

theorem lru_scenario:
  fixes x y z :: "'k name"
  assumes "x \<noteq> y" "x \<noteq> z" "y \<noteq> z"
  shows "let s0 = new_cache (Fin 2) :: ('k, int) cache;
             (r1, s1) = put x 1 s0; (r2, s2) = put y 2 s1;
             (r3, s3) = get x False s2; (r4, s4) = put z 3 s3
         in r1 = Null \<and> r2 = Null \<and> r3 = Value 1 \<and>
            iterate False s2 = Some [(Some x, Some 1), (Some y, Some 2)] \<and>
            iterate False s3 = Some [(Some y, Some 2), (Some x, Some 1)] \<and>
            tail s3 = keys s3 x \<and>
            (\<exists>e. r4 = Obj e \<and> ekey s4 e = Some y \<and> evalue s4 e = Some 2) \<and>
            dom (keys s4) = {x, z} \<and>
            iterate False s4 = Some [(Some x, Some 1), (Some z, Some 3)] \<and>
            iterate True s4 = Some [(Some z, Some 3), (Some x, Some 1)] \<and>
            fst (get x False s4) = Value 1 \<and> fst (get z False s4) = Value 3 \<and>
            fst (get y False s4) = Undefined \<and> currentSize s4 = 2"
  using assms by (auto simp: cache_eval split: name.splits)

theorem lru_scenario_witness:
  "Key ''x'' \<noteq> Key ''y'' \<and> Key ''x'' \<noteq> Key ''z'' \<and> Key ''y'' \<noteq> Key ''z'' \<and>
   (let s0 = new_cache (Fin 2) :: (string, int) cache;
        (r1, s1) = put (Key ''x'') 1 s0; (r2, s2) = put (Key ''y'') 2 s1;
        (r3, s3) = get (Key ''x'') False s2; (r4, s4) = put (Key ''z'') 3 s3
    in r3 = Value 1 \<and> r4 = Obj (Ent 1) \<and>
       iterate False s4 = Some [(Some (Key ''x''), Some 1), (Some (Key ''z''), Some 3)])"
proof -
  have h: "Key ''x'' \<noteq> (Key ''y'' :: string name)" "Key ''x'' \<noteq> (Key ''z'' :: string name)"
    "Key ''y'' \<noteq> (Key ''z'' :: string name)" by simp_all
  have e: "fst (put (Key ''z'') 3 (snd (get (Key ''x'') False (snd (put (Key ''y'') 2
             (snd (put (Key ''x'') 1 (new_cache (Fin 2) :: (string, int) cache)))))))) = Obj (Ent 1)"
    by (simp add: cache_eval)
  from lru_scenario[OF h] e show ?thesis
    by (simp add: Let_def split: prod.splits)
qed

text \<open>
  C5.  The first-inserted key is absent once \<open>capacity + 1\<close> distinct keys are in: the code
  does not keep this for a key that is a name of \<open>Object.prototype\<close>.  On a fresh cache of
  capacity 2, \<open>put('toString', 1)\<close>, \<open>put('b', 2)\<close>, \<open>put('c', 3)\<close> return \<open>null\<close>, \<open>null\<close> and
  the entry of the first call, and \<open>b\<close> and \<open>c\<close> are what the cache holds.  The eviction has
  deleted the own property \<open>toString\<close> of the index, so \<open>_keys['toString']\<close> now reads the
  inherited function: \<open>isSet('toString')\<close> returns it instead of \<open>undefined\<close>, and
  \<open>get('toString')\<close> links the function object into the order list as its newest entry.
\<close>

theorem evicted_name_is_set:
  "cacheSize (new_cache (Fin 2) :: (string, int) cache) = 2 \<and>
   fst (puts [(Inherited ToString, 1), (Key ''b'', 2), (Key ''c'', 3)]
          (new_cache (Fin 2) :: (string, int) cache)) = [Null, Null, Obj (Ent 0)] \<and>
   ekey cache_toString (Ent 0) = Some (Inherited ToString) \<and>
   evalue cache_toString (Ent 0) = Some 1 \<and>
   keys cache_toString (Inherited ToString) = None \<and>
   keys cache_toString (Key ''b'') = Some (Ent 1) \<and>
   keys cache_toString (Key ''c'') = Some (Ent 2) \<and>
   iterate False cache_toString = Some [(Some (Key ''b''), Some 2), (Some (Key ''c''), Some 3)] \<and>
   fst (isSet (Inherited ToString) cache_toString) = Obj (Func ToString) \<and>
   fst (get (Inherited ToString) False cache_toString) = Undefined \<and>
   tail (snd (get (Inherited ToString) False cache_toString)) = Some (Func ToString) \<and>
   visited False (snd (get (Inherited ToString) False cache_toString))
     = Some [Ent 1, Ent 2, Func ToString]"
  by (simp add: cache_toString_def cache_eval)

text \<open>
  C6.  Promotion by \<open>get\<close> is idempotent: when key \<open>k\<close> is present, the first \<open>get(k)\<close> leaves its
  entry at the tail, and a second \<open>get(k)\<close> changes nothing at all (no link, no reference), so
  the head-to-tail sequence, and the tail-to-head one, are those after the first call; it
  returns what the first call returned.  This holds in every state of the store.  In a
  well-formed cache the sequence after one call, and after two, is the old one with the
  entry of \<open>k\<close> moved to the end.
\<close>

theorem get_twice:
  assumes "keys s k = Some e"
  shows "tail (snd (get k r s)) = Some e \<and>
         snd (get k r' (snd (get k r s))) = snd (get k r s) \<and>
         visited False (snd (get k r' (snd (get k r s)))) = visited False (snd (get k r s)) \<and>
         visited True (snd (get k r' (snd (get k r s)))) = visited True (snd (get k r s)) \<and>
         fst (get k r (snd (get k r s))) = fst (get k r s) \<and>
         (\<forall>es. well_formed s es \<longrightarrow>
            visited False (snd (get k r s)) = Some (remove1 e es @ [e]) \<and>
            visited False (snd (get k r' (snd (get k r s)))) = Some (remove1 e es @ [e]))"
proof -
  let ?s = "snd (get k r s)"
  note l = lookup_own[OF assms]
  from l have t: "tail ?s = Some e" and i: "keys ?s k = Some e"
    using assms by (simp_all add: get_fields)
  have same: "snd (get k r' ?s) = ?s" by (rule get_at_tail[OF lookup_own[OF i] t])
  have "fst (get k r ?s) = fst (get k r s)"
    using l lookup_own[OF i] by (simp add: get_fields value_of_def)
  moreover have "visited False ?s = Some (remove1 e es @ [e])" if "well_formed s es" for es
    using get_wf[OF that assms, of r] by (simp add: well_formed_def linked_visited)
  ultimately show ?thesis using t same by simp
qed

theorem get_twice_witness:
  "keys cache_abc (Key ''a'') = Some (Ent 0) \<and> well_formed cache_abc [Ent 0, Ent 1, Ent 2] \<and>
   visited False cache_abc = Some [Ent 0, Ent 1, Ent 2] \<and>
   visited False (snd (get (Key ''a'') False cache_abc)) = Some [Ent 1, Ent 2, Ent 0] \<and>
   visited False (snd (get (Key ''a'') False (snd (get (Key ''a'') False cache_abc))))
     = Some [Ent 1, Ent 2, Ent 0] \<and>
   tail (snd (get (Key ''a'') False cache_abc)) = Some (Ent 0) \<and>
   snd (get (Key ''a'') False (snd (get (Key ''a'') False cache_abc)))
     = snd (get (Key ''a'') False cache_abc)"
proof -
  have k: "keys cache_abc (Key ''a'') = Some (Ent 0)" by (rule cache_abc_keys)
  have v: "visited False cache_abc = Some [Ent 0, Ent 1, Ent 2]"
    by (simp add: cache_abc_def cache_eval)
  from get_twice[OF k, of False False] k v cache_abc_wf show ?thesis by auto
qed

text \<open>
  C7.  \<open>remove\<close> of an absent key changes nothing, and after \<open>remove(k)\<close> the key is reported
  absent: the code keeps neither for a key that is a name of \<open>Object.prototype\<close>.  On the
  cache that holds \<open>a\<close>, \<open>b\<close>, \<open>c\<close>, \<open>toString\<close> was never inserted, yet \<open>_keys['toString']\<close> reads
  the inherited function, which \<open>remove('toString')\<close> takes for an entry without neighbours:
  it returns \<open>undefined\<close> but clears \<open>head\<close> and \<open>tail\<close> and decrements the count, so the order
  list is empty while the index still holds the three keys, and \<open>shift\<close> finds nothing to
  evict.  And on a cache whose only key is \<open>toString\<close>, \<open>remove('toString')\<close> returns the value
  and deletes the own property, after which \<open>isSet('toString')\<close> returns the inherited function
  instead of \<open>undefined\<close>.
\<close>

theorem remove_inherited_name:
  "keys cache_abc (Inherited ToString) = None \<and>
   visited False cache_abc = Some [Ent 0, Ent 1, Ent 2] \<and>
   currentSize cache_abc = 3 \<and>
   fst (remove (Inherited ToString) cache_abc) = Undefined \<and>
   snd (remove (Inherited ToString) cache_abc) \<noteq> cache_abc \<and>
   head (snd (remove (Inherited ToString) cache_abc)) = None \<and>
   tail (snd (remove (Inherited ToString) cache_abc)) = None \<and>
   currentSize (snd (remove (Inherited ToString) cache_abc)) = 2 \<and>
   keys (snd (remove (Inherited ToString) cache_abc)) = keys cache_abc \<and>
   visited False (snd (remove (Inherited ToString) cache_abc)) = Some [] \<and>
   visited True (snd (remove (Inherited ToString) cache_abc)) = Some [] \<and>
   fst (shift (snd (remove (Inherited ToString) cache_abc))) = Undefined \<and>
   fst (remove (Inherited ToString)
          (snd (put (Inherited ToString) 1 (new_cache (Fin 5) :: (string, int) cache)))) = Value 1 \<and>
   fst (isSet (Inherited ToString)
          (snd (remove (Inherited ToString)
                  (snd (put (Inherited ToString) 1 (new_cache (Fin 5) :: (string, int) cache))))))
     = Obj (Func ToString)"
proof -
  have h: "head cache_abc = Some (Ent 0)"
    by (simp add: cache_abc_def cache_eval)
  have "head (snd (remove (Inherited ToString) cache_abc)) = None"
    by (simp add: cache_abc_def cache_eval)
  with h have "snd (remove (Inherited ToString) cache_abc) \<noteq> cache_abc" by auto
  then show ?thesis
    by (simp add: cache_abc_def cache_eval)
qed

text \<open>
  C8.  \<open>isSet\<close> reports whether the key exists: the code does not keep this.  The body is
  \<open>return _keys[key]\<close>, a read through the prototype chain.  On a fresh cache, into which
  nothing was ever put, \<open>isSet('constructor')\<close> returns the inherited function of
  \<open>Object.prototype\<close>, a truthy value, although the index owns no key.  For a key that exists
  the result is the entry object of the order list itself, neither \<open>true\<close> nor the value
  stored with the key; only for a name that is neither owned nor inherited is it
  \<open>undefined\<close>.  The state is not touched.
\<close>

theorem isSet_inherited_name:
  "keys (new_cache (Fin 5) :: (string, int) cache) = Map.empty \<and>
   visited False (new_cache (Fin 5) :: (string, int) cache) = Some [] \<and>
   isSet (Inherited Constructor) (new_cache (Fin 5) :: (string, int) cache)
     = (Obj (Func Constructor), new_cache (Fin 5)) \<and>
   evalue cache_a (Ent 0) = Some 1 \<and>
   isSet (Key ''a'') cache_a = (Obj (Ent 0), cache_a) \<and>
   fst (isSet (Key ''a'') cache_a) \<noteq> Bool True \<and>
   fst (isSet (Key ''a'') cache_a) \<noteq> Value 1 \<and>
   isSet (Key ''z'') cache_a = (Undefined, cache_a) \<and>
   fst (isSet (Key ''z'') cache_a) \<noteq> Bool False"
  by (simp add: cache_a_def cache_eval)




text \<open>
  C10.  \<open>shift\<close> takes the head entry off the order list: the code does not keep this when the
  head is the only entry.  \<open>shift\<close> never assigns \<open>tail\<close>.  On the cache that holds only \<open>a\<close>,
  \<open>shift()\<close> returns the entry, deletes \<open>a\<close> from the index, clears \<open>head\<close> and leaves the count
  at 1, as the claim says, but \<open>tail\<close> still refers to the evicted entry, which the walk from
  the tail still visits.  A following \<open>put('b', 2)\<close> finds that \<open>tail\<close>, links the new entry
  behind the evicted one and leaves \<open>head\<close> undefined: the walk from the head visits nothing,
  the walk from the tail visits \<open>b\<close> and the evicted entry, and \<open>shift()\<close> returns \<open>undefined\<close>
  although \<open>b\<close> is in the index.  \<open>remove('a')\<close> on the same cache clears both \<open>head\<close> and
  \<open>tail\<close>.
\<close>

theorem shift_keeps_tail:
  "visited False cache_a = Some [Ent 0] \<and> visited True cache_a = Some [Ent 0] \<and>
   currentSize cache_a = 1 \<and>
   fst (shift cache_a) = Obj (Ent 0) \<and>
   keys (snd (shift cache_a)) = Map.empty \<and>
   head (snd (shift cache_a)) = None \<and>
   currentSize (snd (shift cache_a)) = 1 \<and>
   tail (snd (shift cache_a)) = Some (Ent 0) \<and>
   visited False (snd (shift cache_a)) = Some [] \<and>
   visited True (snd (shift cache_a)) = Some [Ent 0] \<and>
   fst (put (Key ''b'') 2 (snd (shift cache_a))) = Null \<and>
   keys (snd (put (Key ''b'') 2 (snd (shift cache_a)))) (Key ''b'') = Some (Ent 1) \<and>
   head (snd (put (Key ''b'') 2 (snd (shift cache_a)))) = None \<and>
   visited False (snd (put (Key ''b'') 2 (snd (shift cache_a)))) = Some [] \<and>
   visited True (snd (put (Key ''b'') 2 (snd (shift cache_a)))) = Some [Ent 1, Ent 0] \<and>
   fst (shift (snd (put (Key ''b'') 2 (snd (shift cache_a))))) = Undefined \<and>
   head (snd (remove (Key ''a'') cache_a)) = None \<and>
   tail (snd (remove (Key ''a'') cache_a)) = None"
  by (simp add: cache_a_def cache_eval)

end
